theory Spec2Isabelle
  imports Main
begin

section \<open>Go values used by the packages\<close>

text \<open>
  Go strings and byte slices are sequences of bytes: \<^typ>\<open>string\<close>. Go's \<open>int\<close> is taken
  to be 64 bits wide; where a computation can leave that range the wrap-around is written
  out with \<open>wrap64\<close>.
\<close>

definition newline :: char where
  "newline = CHR 0x0A"

definition wrap64 :: "int \<Rightarrow> int" where
  "wrap64 x = (x + 2 ^ 63) mod 2 ^ 64 - 2 ^ 63"

text \<open>
  An \<open>error\<close> interface value, by the way it was made. \<open>errors.New\<close> and
  \<open>fmt.Errorf\<close> both give a \<open>*errors.errorString\<close>; for \<open>fmt.Errorf\<close> the format and
  the arguments are kept instead of the formatted text. \<open>StackParseErr\<close> is a value of
  the string type \<open>stackParseErr\<close>, the only dynamic type that the type assertion in
  \<open>verifyTestMain\<close> accepts.
\<close>

datatype error =
    ErrorsNew string
  | FmtErrorf string "string list"
  | StackParseErr string

text \<open>A Go function either returns or panics.\<close>

datatype panic =
    NilPointerDereference
  | IndexOutOfRange
  | MakesliceLenOutOfRange
  | PanicSprintf string "string list"

datatype 'a outcome = Return 'a | Panic panic

section \<open>Functions of the standard library\<close>

text \<open>\<open>strings.HasPrefix\<close>, \<open>strings.TrimPrefix\<close>, \<open>strings.TrimSuffix\<close>.\<close>

definition HasPrefix :: "string \<Rightarrow> string \<Rightarrow> bool" where
  "HasPrefix s pre = (take (length pre) s = pre)"

definition HasSuffix :: "string \<Rightarrow> string \<Rightarrow> bool" where
  "HasSuffix s suf = (length suf \<le> length s \<and> drop (length s - length suf) s = suf)"

definition TrimPrefix :: "string \<Rightarrow> string \<Rightarrow> string" where
  "TrimPrefix s pre = (if HasPrefix s pre then drop (length pre) s else s)"

definition TrimSuffix :: "string \<Rightarrow> string \<Rightarrow> string" where
  "TrimSuffix s suf = (if HasSuffix s suf then take (length s - length suf) s else s)"

text \<open>
  \<open>strings.Index\<close> and \<open>strings.LastIndex\<close>: the byte offset of the first and of the
  last occurrence of \<open>substr\<close> in \<open>s\<close>, or \<open>-1\<close>.
\<close>

fun Index :: "string \<Rightarrow> string \<Rightarrow> int" where
  "Index [] substr = (if substr = [] then 0 else -1)"
| "Index (c # s) substr =
     (if HasPrefix (c # s) substr then 0
      else (let m = Index s substr in if m < 0 then -1 else m + 1))"

fun LastIndex :: "string \<Rightarrow> string \<Rightarrow> int" where
  "LastIndex [] substr = (if substr = [] then 0 else -1)"
| "LastIndex (c # s) substr =
     (let m = LastIndex s substr in
      if 0 \<le> m then m + 1
      else if HasPrefix (c # s) substr then 0 else -1)"

text \<open>
  \<open>strings.SplitN(s, sep, n)\<close> for a non-empty separator and \<open>n \<ge> 0\<close>: at most \<open>n\<close>
  pieces, the last one the unsplit remainder; \<open>n = 0\<close> gives no piece at all.
\<close>

fun SplitN :: "string \<Rightarrow> string \<Rightarrow> nat \<Rightarrow> string list" where
  "SplitN s sep 0 = []"
| "SplitN s sep (Suc k) =
     (if k = 0 then [s]
      else (let m = Index s sep in
            if m < 0 then [s]
            else take (nat m) s # SplitN (drop (nat m + length sep) s) sep k))"

text \<open>
  \<open>strconv.Atoi\<close> on a 64-bit platform: an optional sign, then one or more decimal
  digits, and a value that fits \<open>int\<close>; anything else is an error (\<open>None\<close>).
\<close>

definition isDigit :: "char \<Rightarrow> bool" where
  "isDigit c = ((48::nat) \<le> of_char c \<and> of_char c \<le> (57::nat))"

definition digitVal :: "char \<Rightarrow> int" where
  "digitVal c = of_char c - 48"

definition decimalVal :: "string \<Rightarrow> int" where
  "decimalVal ds = foldl (\<lambda>n c. n * 10 + digitVal c) 0 ds"

definition Atoi :: "string \<Rightarrow> int option" where
  "Atoi s =
     (let neg = (s \<noteq> [] \<and> hd s = CHR ''-'');
          ds = (if s \<noteq> [] \<and> (hd s = CHR ''-'' \<or> hd s = CHR ''+'') then tl s else s)
      in if ds = [] \<or> \<not> list_all isDigit ds then None
         else (let un = decimalVal ds in
               if neg then (if un > 2 ^ 63 then None else Some (- un))
               else (if un \<ge> 2 ^ 63 then None else Some un)))"

text \<open>
  \<open>strings.TrimSpace\<close> removes leading and trailing white space as Unicode defines it.
  On the bytes of a string these are the six ASCII characters tab, line feed, vertical
  tab, form feed, carriage return and space, and the UTF-8 encodings of U+0085, U+00A0,
  U+1680, U+2000 to U+200A, U+2028, U+2029, U+202F, U+205F and U+3000. A byte that is
  not part of such an encoding stops the trimming.
\<close>

definition asciiSpace :: "char \<Rightarrow> bool" where
  "asciiSpace c = (c = CHR 0x09 \<or> c = CHR 0x0A \<or> c = CHR 0x0B \<or> c = CHR 0x0C
                   \<or> c = CHR 0x0D \<or> c = CHR 0x20)"

definition spaceTail3 :: "char \<Rightarrow> char \<Rightarrow> char \<Rightarrow> bool" where
  "spaceTail3 a b c =
     ((a = CHR 0xE1 \<and> b = CHR 0x9A \<and> c = CHR 0x80)
      \<or> (a = CHR 0xE2 \<and> b = CHR 0x80
          \<and> ((128::nat) \<le> of_char c \<and> of_char c \<le> (138::nat)
              \<or> c = CHR 0xA8 \<or> c = CHR 0xA9 \<or> c = CHR 0xAF))
      \<or> (a = CHR 0xE2 \<and> b = CHR 0x81 \<and> c = CHR 0x9F)
      \<or> (a = CHR 0xE3 \<and> b = CHR 0x80 \<and> c = CHR 0x80))"

definition spaceTail2 :: "char \<Rightarrow> char \<Rightarrow> bool" where
  "spaceTail2 a b = (a = CHR 0xC2 \<and> (b = CHR 0x85 \<or> b = CHR 0xA0))"

fun TrimLeftSpace :: "string \<Rightarrow> string" where
  "TrimLeftSpace (a # b # c # s) =
     (if asciiSpace a then TrimLeftSpace (b # c # s)
      else if spaceTail2 a b then TrimLeftSpace (c # s)
      else if spaceTail3 a b c then TrimLeftSpace s
      else a # b # c # s)"
| "TrimLeftSpace [a, b] =
     (if asciiSpace a then TrimLeftSpace [b]
      else if spaceTail2 a b then []
      else [a, b])"
| "TrimLeftSpace [a] = (if asciiSpace a then [] else [a])"
| "TrimLeftSpace [] = []"

text \<open>The same from the end, on the reversed string.\<close>

fun TrimLeftSpaceRev :: "string \<Rightarrow> string" where
  "TrimLeftSpaceRev (c # b # a # s) =
     (if asciiSpace c then TrimLeftSpaceRev (b # a # s)
      else if spaceTail2 b c then TrimLeftSpaceRev (a # s)
      else if spaceTail3 a b c then TrimLeftSpaceRev s
      else c # b # a # s)"
| "TrimLeftSpaceRev [c, b] =
     (if asciiSpace c then TrimLeftSpaceRev [b]
      else if spaceTail2 b c then []
      else [c, b])"
| "TrimLeftSpaceRev [c] = (if asciiSpace c then [] else [c])"
| "TrimLeftSpaceRev [] = []"

definition TrimRightSpace :: "string \<Rightarrow> string" where
  "TrimRightSpace s = rev (TrimLeftSpaceRev (rev s))"

definition TrimSpace :: "string \<Rightarrow> string" where
  "TrimSpace s = TrimRightSpace (TrimLeftSpace s)"

text \<open>
  \<open>ReadString\<close> of a \<open>bufio.Reader\<close> over a \<open>bytes.Reader\<close>, with the reader given by
  the bytes not yet read: the text up to and including the first delimiter and no error,
  or, when no delimiter is left, the rest of the input and \<open>io.EOF\<close>. A
  \<open>bytes.Reader\<close> has no other error, so the \<open>panic\<close> of \<open>getStacks\<close> on a reading
  failure is dead code and has no counterpart below.
\<close>

datatype io_error = EOF

definition ReadString :: "string \<Rightarrow> char \<Rightarrow> string \<times> io_error option \<times> string" where
  "ReadString rd delim =
     (case dropWhile (\<lambda>c. c \<noteq> delim) rd of
        [] \<Rightarrow> (rd, Some EOF, [])
      | d # rest \<Rightarrow> (takeWhile (\<lambda>c. c \<noteq> delim) rd @ [d], None, rest))"

section \<open>Package stack\<close>

definition defaultBufferSize :: int where
  "defaultBufferSize = 64 * 1024"

definition errNoStacks :: error where
  "errNoStacks = ErrorsNew ''no stacks parsed''"

text \<open>
  \<open>Stack\<close>, with the contents of the buffer behind the pointer \<open>fullStack\<close> as a field:
  every \<open>Stack\<close> that \<open>getStacks\<close> makes owns a fresh buffer, and nothing writes to it
  after the \<open>Stack\<close> has been copied into the result. The zero value \<open>Stack{}\<close> has the
  nil pointer there, given as the empty text.
\<close>

record Stack =
  id :: int
  state :: string
  firstFunction :: string
  fullStack :: string

definition zeroStack :: Stack where
  "zeroStack = \<lparr>id = 0, state = [], firstFunction = [], fullStack = []\<rparr>"

definition parseFirstFunc :: "string \<Rightarrow> string outcome" where
  "parseFirstFunc line0 =
     (let line = TrimSpace line0; idx = LastIndex line ''('' in
      if idx > 0 then Return (take (nat idx) line)
      else Panic (PanicSprintf ''function calls missing parents: %q'' [line]))"

definition headerFormatMsg :: string where
  "headerFormatMsg = ''stack header not in expected format '' @ [CHR 0x22]
     @ ''goroutine ID-NUM [state]'' @ [CHR 0x22] @ '', got %q''"

definition parseGoStackHeader :: "string \<Rightarrow> int \<times> string \<times> error option" where
  "parseGoStackHeader line0 =
     (let line = TrimSuffix line0 [CHR '':'', newline];
          parts = SplitN line '' '' 3
      in if length parts \<noteq> 3 then (0, [], Some (FmtErrorf headerFormatMsg [line]))
         else (case Atoi (parts ! 1) of
                 None \<Rightarrow>
                   (0, [], Some (FmtErrorf ''failed to parse goroutine ID: %v in line %q''
                                   [parts ! 1, line]))
               | Some n \<Rightarrow>
                   (n, TrimSuffix (TrimPrefix (parts ! 2) ''['') '']'', None)))"

text \<open>
  \<open>runtime.Stack\<close> is the runtime's: \<open>rt cap all\<close> is the text it has for a buffer
  of \<open>cap\<close> bytes, of which the buffer receives what fits. Each capacity is offered once
  by \<open>getStackBuffer\<close>, so a function of the capacity also covers a dump that changes
  between the calls.
\<close>

type_synonym runtime_Stack = "nat \<Rightarrow> bool \<Rightarrow> string"

definition written :: "runtime_Stack \<Rightarrow> nat \<Rightarrow> bool \<Rightarrow> string" where
  "written rt cap all = take cap (rt cap all)"

text \<open>
  The loop of \<open>getStackBuffer\<close>, from the capacity \<open>i\<close> on. \<open>make\<close> panics on a negative
  length, which is where the doubling of a 64-bit \<open>int\<close> ends; memory is taken to suffice
  below that. The loop has no other exit than the return, so the function is partial.
\<close>

partial_function (option) getStackBuffer_from :: "runtime_Stack \<Rightarrow> bool \<Rightarrow> int \<Rightarrow> string outcome option" where
  "getStackBuffer_from rt all i =
     (if i < 0 then Some (Panic MakesliceLenOutOfRange)
      else (let w = written rt (nat i) all;
                buf = w @ replicate (nat i - length w) (CHR 0x00);
                n = int (length w)
            in if n < i then Some (Return (take (nat n) buf))
               else getStackBuffer_from rt all (wrap64 (i * 2))))"

definition getStackBuffer :: "runtime_Stack \<Rightarrow> bool \<Rightarrow> string outcome option" where
  "getStackBuffer rt all = getStackBuffer_from rt all defaultBufferSize"

text \<open>
  One iteration of the loop of \<open>getStacks\<close> either goes on with new values of \<open>stacks\<close>
  and \<open>curStack\<close> or returns from the function. \<open>writeLine\<close> is the end of the loop body,
  from \<open>curStack.fullStack.WriteString(line)\<close> on: with no stack started yet,
  \<open>curStack\<close> is nil and the access to its field panics.
\<close>

datatype flow = Go "Stack list" "Stack option" | Ret "Stack list" "error option"

definition flush :: "Stack list \<Rightarrow> Stack option \<Rightarrow> Stack list" where
  "flush stacks curStack = (case curStack of None \<Rightarrow> stacks | Some c \<Rightarrow> stacks @ [c])"

definition writeLine :: "string \<Rightarrow> bool \<Rightarrow> Stack list \<Rightarrow> Stack option \<Rightarrow> flow outcome" where
  "writeLine line isFirstLine stacks curStack =
     (case curStack of
        None \<Rightarrow> Panic NilPointerDereference
      | Some cur \<Rightarrow>
          (let cur1 = cur\<lparr>fullStack := fullStack cur @ line\<rparr> in
           if \<not> isFirstLine \<and> firstFunction cur1 = [] then
             (case parseFirstFunc line of
                Panic p \<Rightarrow> Panic p
              | Return f \<Rightarrow> Return (Go stacks (Some (cur1\<lparr>firstFunction := f\<rparr>))))
           else Return (Go stacks (Some cur1))))"

definition loopBody :: "string \<Rightarrow> Stack list \<Rightarrow> Stack option \<Rightarrow> flow outcome" where
  "loopBody line stacks curStack =
     (if HasPrefix line ''goroutine '' then
        (let stacks1 = flush stacks curStack in
         case parseGoStackHeader line of
           (n, goState, Some err) \<Rightarrow> Return (Ret [] (Some err))
         | (n, goState, None) \<Rightarrow>
             writeLine line True stacks1
               (Some \<lparr>id = n, state = goState, firstFunction = [], fullStack = []\<rparr>))
      else writeLine line False stacks curStack)"

text \<open>
  The loop, on the bytes not yet read. Its result \<open>Go stacks curStack\<close> is the \<open>break\<close>
  at the end of the input, with the values the two variables have then.
\<close>

function getStacks_loop :: "string \<Rightarrow> Stack list \<Rightarrow> Stack option \<Rightarrow> flow outcome" where
  "getStacks_loop rd stacks curStack =
     (case ReadString rd newline of
        (line, Some EOF, rd') \<Rightarrow> Return (Go stacks curStack)
      | (line, None, rd') \<Rightarrow>
          (case loopBody line stacks curStack of
             Panic p \<Rightarrow> Panic p
           | Return (Ret r e) \<Rightarrow> Return (Ret r e)
           | Return (Go stacks1 curStack1) \<Rightarrow> getStacks_loop rd' stacks1 curStack1))"
  by pat_completeness auto
termination
proof (relation "measure (\<lambda>(rd, stacks, curStack). length rd)", goal_cases)
  case 1
  show ?case by simp
next
  case (2 rd stacks curStack line y err rd' x1 stacks1 curStack1)
  have "length (dropWhile (\<lambda>c. c \<noteq> newline) rd) \<le> length rd"
    by (rule length_dropWhile_le)
  with 2(1,2,3) have "length rd' < length rd"
    by (auto simp: ReadString_def split: list.splits)
  then show ?case by simp
qed

declare getStacks_loop.simps [simp del]

text \<open>\<open>getStacks\<close> on the bytes that \<open>getStackBuffer\<close> returned, and \<open>getStacks\<close> itself.\<close>

definition getStacks_on :: "string \<Rightarrow> (Stack list \<times> error option) outcome" where
  "getStacks_on buf =
     (case getStacks_loop buf [] None of
        Panic p \<Rightarrow> Panic p
      | Return (Ret r e) \<Rightarrow> Return (r, e)
      | Return (Go stacks curStack) \<Rightarrow>
          (let stacks1 = flush stacks curStack in
           if length stacks1 = 0 then Return ([], Some errNoStacks)
           else Return (stacks1, None)))"

definition getStacks :: "runtime_Stack \<Rightarrow> bool \<Rightarrow> (Stack list \<times> error option) outcome option" where
  "getStacks rt all =
     (case getStackBuffer rt all of
        None \<Rightarrow> None
      | Some (Panic p) \<Rightarrow> Some (Panic p)
      | Some (Return buf) \<Rightarrow> Some (getStacks_on buf))"

definition All :: "runtime_Stack \<Rightarrow> (Stack list \<times> error option) outcome option" where
  "All rt = getStacks rt True"

definition Current :: "runtime_Stack \<Rightarrow> (Stack \<times> error option) outcome option" where
  "Current rt =
     (case getStacks rt False of
        None \<Rightarrow> None
      | Some (Panic p) \<Rightarrow> Some (Panic p)
      | Some (Return (stacks, Some err)) \<Rightarrow> Some (Return (zeroStack, Some err))
      | Some (Return (stacks, None)) \<Rightarrow>
          (case stacks of
             [] \<Rightarrow> Some (Panic IndexOutOfRange)
           | s # rest \<Rightarrow> Some (Return (s, None))))"

section \<open>Package goleak: the test main\<close>

text \<open>
  The process as \<open>verifyTestMain\<close> sees it: what has been written to \<open>_osStderr\<close>, each
  \<open>fmt.Fprintf\<close> as its format with its argument, and whatever else the tests and the
  leak check read and change. \<open>m.Run\<close> and \<open>Find\<close> are not part of the file: they are
  parameters, functions of the process state.
\<close>

record process =
  osStderr :: "(string \<times> error) list"

definition Fprintf_osStderr :: "string \<Rightarrow> error \<Rightarrow> 'a process_scheme \<Rightarrow> 'a process_scheme" where
  "Fprintf_osStderr format err p = p\<lparr>osStderr := osStderr p @ [(format, err)]\<rparr>"

definition isStackParseErr :: "error \<Rightarrow> bool" where
  "isStackParseErr err = (case err of StackParseErr s \<Rightarrow> True | _ \<Rightarrow> False)"

definition skippedFormat :: string where
  "skippedFormat = ''goleak: skipped due to stack parsing failures: %v\<newline>''"

definition failedFormat :: string where
  "failedFormat = ''goleak: failed due to stack parsing failures: %v\<newline>''"

definition verifyTestMain ::
  "('a process_scheme \<Rightarrow> int \<times> 'a process_scheme)
   \<Rightarrow> ('o list \<Rightarrow> 'a process_scheme \<Rightarrow> error option \<times> 'a process_scheme)
   \<Rightarrow> 'o list \<Rightarrow> 'a process_scheme \<Rightarrow> int \<times> 'a process_scheme" where
  "verifyTestMain m_Run Find options p =
     (let (exitCode, p1) = m_Run p in
      if exitCode \<noteq> 0 then (exitCode, p1)
      else (let (err, p2) = Find options p1 in
            case err of
              None \<Rightarrow> (0, p2)
            | Some e \<Rightarrow>
                if isStackParseErr e then (0, Fprintf_osStderr skippedFormat e p2)
                else (1, Fprintf_osStderr failedFormat e p2)))"

text \<open>
  Stand-ins for the two parameters, as a test of \<open>verifyTestMain\<close> would stub them: a
  test run that only returns its exit code, and a \<open>Find\<close> that counts its calls and
  returns a fixed result.
\<close>

record counted = process +
  findCalls :: nat

definition runStub :: "int \<Rightarrow> counted \<Rightarrow> int \<times> counted" where
  "runStub code p = (code, p)"

definition findStub :: "error option \<Rightarrow> unit list \<Rightarrow> counted \<Rightarrow> error option \<times> counted" where
  "findStub result options p = (result, p\<lparr>findCalls := Suc (findCalls p)\<rparr>)"

definition freshProcess :: counted where
  "freshProcess = \<lparr>osStderr = [], findCalls = 0\<rparr>"

section \<open>Dumps, lines and records, as the statements speak of them\<close>

text \<open>
  A line is a text that ends with its only line feed; a header line is a line that
  \<open>getStacks\<close> takes for the start of a stack. \<open>completeLines\<close> cuts a text into its
  lines and leaves out what follows the last line feed.
\<close>

definition isLine :: "string \<Rightarrow> bool" where
  "isLine l = (l \<noteq> [] \<and> last l = newline \<and> newline \<notin> set (butlast l))"

definition isHeader :: "string \<Rightarrow> bool" where
  "isHeader l = HasPrefix l ''goroutine ''"

fun linesFrom :: "string \<Rightarrow> string \<Rightarrow> string list" where
  "linesFrom acc [] = []"
| "linesFrom acc (c # s) =
     (if c = newline then (acc @ [c]) # linesFrom [] s else linesFrom (acc @ [c]) s)"

definition completeLines :: "string \<Rightarrow> string list" where
  "completeLines s = linesFrom [] s"

text \<open>
  A record of a dump, by the parts of its text: the decimal id and the state of the
  header line \<open>goroutine <id> [<state>]:\<close>, and the body lines.
\<close>

record dumpRecord =
  idText :: string
  stateText :: string
  bodyLines :: "string list"

definition headerLine :: "dumpRecord \<Rightarrow> string" where
  "headerLine r = ''goroutine '' @ idText r @ '' ['' @ stateText r @ '']:'' @ [newline]"

definition recordText :: "dumpRecord \<Rightarrow> string" where
  "recordText r = headerLine r @ concat (bodyLines r)"

definition dumpText :: "dumpRecord list \<Rightarrow> string" where
  "dumpText rs = concat (map recordText rs)"

text \<open>
  \<open>recordAsClaimed\<close> is the record of the specification's grammar: a header line with a
  decimal id, followed by one or more body lines. \<open>wellFormed\<close> adds what the code needs
  to accept the record: the id fits \<open>int\<close>, and the first body line, trimmed, has its
  last \<open>(\<close> after its first byte. \<open>stackOf\<close> is the \<open>Stack\<close> that the record stands for.
\<close>

definition recordAsClaimed :: "dumpRecord \<Rightarrow> bool" where
  "recordAsClaimed r =
     (idText r \<noteq> [] \<and> list_all isDigit (idText r) \<and> newline \<notin> set (stateText r)
      \<and> bodyLines r \<noteq> [] \<and> list_all (\<lambda>b. isLine b \<and> \<not> isHeader b) (bodyLines r))"

definition wellFormed :: "dumpRecord \<Rightarrow> bool" where
  "wellFormed r =
     (recordAsClaimed r \<and> decimalVal (idText r) < 2 ^ 63
      \<and> 0 < LastIndex (TrimSpace (hd (bodyLines r))) ''('')"

definition stackOf :: "dumpRecord \<Rightarrow> Stack" where
  "stackOf r =
     \<lparr>id = decimalVal (idText r), state = stateText r,
      firstFunction =
        (let t = TrimSpace (hd (bodyLines r)) in take (nat (LastIndex t ''('')) t),
      fullStack = recordText r\<rparr>"

text \<open>
  The function of a stack, read off the lines of its text by the rule of
  \<open>parseFirstFunc\<close>, and by the rule of the specification: the trimmed first body line
  up to its first \<open>(\<close> at a positive offset.
\<close>

definition firstFunctionFrom :: "string list \<Rightarrow> string \<Rightarrow> bool" where
  "firstFunctionFrom ls f =
     (case ls of
        h # b # rest \<Rightarrow>
          (let t = TrimSpace b in 0 < LastIndex t ''('' \<and> f = take (nat (LastIndex t ''('')) t)
      | _ \<Rightarrow> f = [])"

definition claimedFirstFunction :: "string \<Rightarrow> string" where
  "claimedFirstFunction line =
     (let t = TrimSpace line; m = Index (tl t) ''('' in take (nat (m + 1)) t)"

text \<open>What every stack under construction and every finished stack satisfies.\<close>

definition recordInv :: "Stack \<Rightarrow> bool" where
  "recordInv c =
     (\<exists>ls. ls \<noteq> [] \<and> list_all isLine ls \<and> isHeader (hd ls)
        \<and> list_all (\<lambda>b. \<not> isHeader b) (tl ls)
        \<and> fullStack c = concat ls \<and> firstFunctionFrom ls (firstFunction c))"

text \<open>
  The capacities that \<open>getStackBuffer\<close> offers, in order. A stand-in for
  \<open>runtime.Stack\<close> that has the same dump at every call, and some dumps.
\<close>

definition attemptCapacity :: "nat \<Rightarrow> nat" where
  "attemptCapacity k = nat defaultBufferSize * 2 ^ k"

definition fakeStack :: "string \<Rightarrow> runtime_Stack" where
  "fakeStack dump cap all = dump"

definition exampleDump :: "dumpRecord list" where
  "exampleDump =
     [\<lparr>idText = ''1'', stateText = ''running'',
       bodyLines = [''main.main()\<newline>'', CHR 0x09 # ''/app/main.go:12 +0x1d\<newline>'']\<rparr>,
      \<lparr>idText = ''18'', stateText = ''chan receive'',
       bodyLines = [''main.(*worker).run(0xc000010000)\<newline>'']\<rparr>]"

definition overflowDump :: "dumpRecord list" where
  "overflowDump =
     [\<lparr>idText = ''9223372036854775808'', stateText = ''running'',
       bodyLines = [''main.main()\<newline>'']\<rparr>]"

definition plainBodyDump :: "dumpRecord list" where
  "plainBodyDump =
     [\<lparr>idText = ''1'', stateText = ''running'', bodyLines = [''body text\<newline>'']\<rparr>]"

definition methodDump :: string where
  "methodDump = ''goroutine 1 [running]:\<newline>main.(*T).run(0x1)\<newline>''"

definition methodStack :: Stack where
  "methodStack = \<lparr>id = 1, state = ''running'', firstFunction = ''main.(*T).run'',
                   fullStack = methodDump\<rparr>"

definition noParenDump :: string where
  "noParenDump = ''goroutine 5 [running]:\<newline>''
     @ CHR 0x09 # ''goroutine running on other thread; stack unavailable\<newline>''"

section \<open>Lines\<close>

lemma ReadString_line:
  "newline \<notin> set l \<Longrightarrow> ReadString (l @ newline # rest) newline = (l @ [newline], None, rest)"
proof -
  assume a: "newline \<notin> set l"
  have d2: "dropWhile (\<lambda>c. c \<noteq> newline) (l @ newline # rest) = newline # rest"
    using a by (subst dropWhile_append2) auto
  have t2: "takeWhile (\<lambda>c. c \<noteq> newline) (l @ newline # rest) = l"
    using a by (subst takeWhile_append2) auto
  show ?thesis by (simp add: ReadString_def d2 t2)
qed

lemma ReadString_eof:
  "newline \<notin> set t \<Longrightarrow> ReadString t newline = (t, Some EOF, [])"
proof -
  assume a: "newline \<notin> set t"
  then have d: "dropWhile (\<lambda>c. c \<noteq> newline) t = []"
    by (simp add: dropWhile_eq_Nil_conv) metis
  show ?thesis by (simp add: ReadString_def d)
qed

lemma isLine_split: "isLine l \<Longrightarrow> \<exists>b. l = b @ [newline] \<and> newline \<notin> set b"
  unfolding isLine_def by (metis append_butlast_last_id)

lemma split_first_newline:
  assumes "newline \<in> set s"
  shows "\<exists>l rest. s = l @ newline # rest \<and> newline \<notin> set l"
  using assms by (metis split_list_first)

lemma lines_induct [case_names eof line]:
  assumes eof: "\<And>rd. newline \<notin> set rd \<Longrightarrow> P rd"
    and line: "\<And>line rd'. isLine line \<Longrightarrow> P rd' \<Longrightarrow> P (line @ rd')"
  shows "P rd"
proof (induction rd rule: length_induct)
  case (1 rd)
  show ?case
  proof (cases "newline \<in> set rd")
    case False
    then show ?thesis by (rule eof)
  next
    case True
    from split_first_newline [OF this] obtain l rest
      where s: "rd = l @ newline # rest" and l: "newline \<notin> set l" by blast
    have "isLine (l @ [newline])" using l by (simp add: isLine_def)
    moreover have "P rest" using 1 s by simp
    ultimately have "P ((l @ [newline]) @ rest)" by (rule line)
    with s show ?thesis by simp
  qed
qed

lemma linesFrom_line:
  "newline \<notin> set l \<Longrightarrow> linesFrom acc (l @ newline # rest) = (acc @ l @ [newline]) # completeLines rest"
  by (induction l arbitrary: acc) (auto simp: completeLines_def)

lemma linesFrom_tail: "newline \<notin> set t \<Longrightarrow> linesFrom acc t = []"
  by (induction t arbitrary: acc) auto

lemma completeLines_line:
  "newline \<notin> set l \<Longrightarrow> completeLines (l @ newline # rest) = (l @ [newline]) # completeLines rest"
  using linesFrom_line [of l "[]" rest] by (simp add: completeLines_def)

lemma completeLines_isLine:
  assumes "isLine l" shows "completeLines (l @ rest) = l # completeLines rest"
proof -
  from isLine_split [OF assms] obtain b where "l = b @ [newline]" "newline \<notin> set b" by blast
  then show ?thesis using completeLines_line [of b rest] by simp
qed

lemma completeLines_concat:
  "list_all isLine ls \<Longrightarrow> completeLines (concat ls) = ls"
proof (induction ls)
  case Nil
  show ?case by (simp add: completeLines_def)
next
  case (Cons l ls)
  then show ?case using completeLines_isLine [of l "concat ls"] by simp
qed

section \<open>The loop of \<open>getStacks\<close>, line by line\<close>

lemma getStacks_loop_eof:
  "newline \<notin> set t \<Longrightarrow> getStacks_loop t stacks curStack = Return (Go stacks curStack)"
  by (subst getStacks_loop.simps) (simp add: ReadString_eof)

lemma getStacks_loop_line:
  "newline \<notin> set l \<Longrightarrow>
   getStacks_loop (l @ newline # rest) stacks curStack =
     (case loopBody (l @ [newline]) stacks curStack of
        Panic p \<Rightarrow> Panic p
      | Return (Ret r e) \<Rightarrow> Return (Ret r e)
      | Return (Go stacks1 curStack1) \<Rightarrow> getStacks_loop rest stacks1 curStack1)"
  by (subst getStacks_loop.simps) (simp add: ReadString_line)

lemma getStacks_loop_isLine:
  assumes "isLine l"
  shows "getStacks_loop (l @ rest) stacks curStack =
     (case loopBody l stacks curStack of
        Panic p \<Rightarrow> Panic p
      | Return (Ret r e) \<Rightarrow> Return (Ret r e)
      | Return (Go stacks1 curStack1) \<Rightarrow> getStacks_loop rest stacks1 curStack1)"
proof -
  from isLine_split [OF assms] obtain b where b: "l = b @ [newline]" "newline \<notin> set b"
    by blast
  then show ?thesis using getStacks_loop_line [of b rest stacks curStack] by simp
qed

lemma getStacks_capture:
  "getStackBuffer rt all = Some (Return buf) \<Longrightarrow> getStacks rt all = Some (getStacks_on buf)"
  by (simp add: getStacks_def)

text \<open>
  An invariant of \<open>stacks\<close> and \<open>curStack\<close> that every iteration keeps holds when the
  loop is left at the end of the input.
\<close>

lemma loopBody_Some:
  "loopBody line stacks curStack = Return (Go stacks1 curStack1) \<Longrightarrow> curStack1 \<noteq> None"
  by (auto simp: loopBody_def writeLine_def Let_def
      split: if_splits prod.splits option.splits outcome.splits)

lemma loopBody_Ret:
  "loopBody line stacks curStack = Return (Ret r e) \<Longrightarrow> r = [] \<and> e \<noteq> None"
  by (auto simp: loopBody_def writeLine_def Let_def
      split: if_splits prod.splits option.splits outcome.splits)

lemma getStacks_loop_Ret:
  "getStacks_loop rd stacks curStack = Return (Ret r e) \<Longrightarrow> r = [] \<and> e \<noteq> None"
proof (induction rd arbitrary: stacks curStack rule: lines_induct)
  case (eof rd)
  then show ?case by (simp add: getStacks_loop_eof)
next
  case (line line rd')
  from line.prems show ?case
    unfolding getStacks_loop_isLine [OF line.hyps]
    by (auto split: outcome.splits flow.splits dest: loopBody_Ret line.IH)
qed

lemma getStacks_loop_invariant:
  assumes "getStacks_loop rd stacks curStack = Return (Go stacks1 curStack1)"
    and "I stacks curStack"
    and step: "\<And>line st cu st' cu'. I st cu \<Longrightarrow> isLine line \<Longrightarrow>
            loopBody line st cu = Return (Go st' cu') \<Longrightarrow> I st' cu'"
  shows "I stacks1 curStack1"
  using assms(1,2)
proof (induction rd arbitrary: stacks curStack rule: lines_induct)
  case (eof rd)
  then show ?case by (simp add: getStacks_loop_eof)
next
  case (line line rd')
  from line.prems(1) obtain st cu where
    b: "loopBody line stacks curStack = Return (Go st cu)"
    and r: "getStacks_loop rd' st cu = Return (Go stacks1 curStack1)"
    unfolding getStacks_loop_isLine [OF line.hyps]
    by (auto split: outcome.splits flow.splits)
  from step [OF line.prems(2) line.hyps b] have "I st cu" .
  with line.IH r show ?case by blast
qed

section \<open>Strings of a header line\<close>

lemma HasPrefix_append [simp]: "HasPrefix (p @ s) p"
  by (simp add: HasPrefix_def)

lemma HasSuffix_append [simp]: "HasSuffix (s @ p) p"
  by (simp add: HasSuffix_def)

lemma TrimSuffix_append: "TrimSuffix (s @ p) p = s"
  by (simp add: TrimSuffix_def)

lemma TrimPrefix_append: "TrimPrefix (p @ s) p = s"
  by (simp add: TrimPrefix_def)

lemma Index_skip:
  "c \<notin> set a \<Longrightarrow> Index (a @ c # b) [c] = int (length a)"
  by (induction a) (auto simp: HasPrefix_def Let_def)

lemma isDigit_not_space: "isDigit c \<Longrightarrow> c \<noteq> CHR '' ''"
  by (auto simp: isDigit_def)

lemma digits_no_space: "list_all isDigit ds \<Longrightarrow> CHR '' '' \<notin> set ds"
  by (auto simp: list_all_iff dest: isDigit_not_space)

lemma SplitN_step:
  "c \<notin> set a \<Longrightarrow> SplitN (a @ c # b) [c] (Suc (Suc k)) = a # SplitN b [c] (Suc k)"
  by (simp add: Index_skip Let_def)

lemma SplitN_header:
  assumes "list_all isDigit ds"
  shows "SplitN (''goroutine '' @ ds @ '' ['' @ st @ '']'') '' '' 3
           = [''goroutine'', ds, ''['' @ st @ '']'']"
proof -
  have e: "''goroutine '' @ ds @ '' ['' @ st @ '']''
             = ''goroutine'' @ CHR '' '' # (ds @ CHR '' '' # (''['' @ st @ '']''))"
    by simp
  have 1: "CHR '' '' \<notin> set ''goroutine''" by simp
  have 2: "CHR '' '' \<notin> set ds" by (rule digits_no_space [OF assms])
  show ?thesis
    unfolding e numeral_3_eq_3
    by (simp only: SplitN_step [OF 1] SplitN_step [OF 2]) simp
qed

lemma Atoi_digits:
  assumes "ds \<noteq> []" "list_all isDigit ds" "decimalVal ds < 2 ^ 63"
  shows "Atoi ds = Some (decimalVal ds)"
proof -
  from assms(1,2) have "isDigit (hd ds)" by (cases ds) auto
  then have "hd ds \<noteq> CHR ''-''" "hd ds \<noteq> CHR ''+''"
    by (auto simp: isDigit_def)
  with assms show ?thesis by (simp add: Atoi_def Let_def)
qed

lemma parseGoStackHeader_headerLine:
  assumes "idText r \<noteq> []" "list_all isDigit (idText r)" "decimalVal (idText r) < 2 ^ 63"
  shows "parseGoStackHeader (headerLine r) = (decimalVal (idText r), stateText r, None)"
proof -
  have t: "TrimSuffix (headerLine r) [CHR '':'', newline]
             = ''goroutine '' @ idText r @ '' ['' @ stateText r @ '']''"
    using TrimSuffix_append [of "''goroutine '' @ idText r @ '' ['' @ stateText r @ '']''" "[CHR '':'', newline]"]
    by (simp add: headerLine_def)
  have s: "TrimSuffix (TrimPrefix (''['' @ stateText r @ '']'') ''['') '']'' = stateText r"
    using TrimPrefix_append [of "''[''" "stateText r @ '']''"] TrimSuffix_append [of "stateText r" "'']''"]
    by simp
  show ?thesis
    unfolding parseGoStackHeader_def t
    by (simp add: SplitN_header [OF assms(2)] Atoi_digits [OF assms] s Let_def del: append.simps)
qed

lemma headerLine_isLine:
  assumes "list_all isDigit (idText r)" "newline \<notin> set (stateText r)"
  shows "isLine (headerLine r)"
proof -
  have "newline \<notin> set (idText r)"
    using assms(1) by (auto simp: list_all_iff isDigit_def newline_def)
  with assms(2) show ?thesis
    by (simp add: isLine_def headerLine_def butlast_append newline_def)
qed

lemma headerLine_isHeader: "HasPrefix (headerLine r) ''goroutine ''"
  unfolding headerLine_def by (rule HasPrefix_append)

lemma LastIndex_pos_nonempty: "0 < LastIndex s sub \<Longrightarrow> s \<noteq> []"
  by (cases s) (auto split: if_splits)

lemma LastIndex_char:
  "(LastIndex s [c] < 0 \<longrightarrow> c \<notin> set s)
   \<and> (0 \<le> LastIndex s [c] \<longrightarrow>
        (\<exists>pre post. s = pre @ c # post \<and> c \<notin> set post \<and> LastIndex s [c] = int (length pre)))"
proof (induction s)
  case Nil
  show ?case by simp
next
  case (Cons a s)
  show ?case
  proof (cases "0 \<le> LastIndex s [c]")
    case True
    with Cons obtain pre post where
      p: "s = pre @ c # post" "c \<notin> set post" "LastIndex s [c] = int (length pre)"
      by blast
    have "a # s = (a # pre) @ c # post" using p(1) by simp
    moreover have "LastIndex (a # s) [c] = int (length (a # pre))"
      using True p(3) by (simp add: Let_def)
    ultimately show ?thesis using p(2) by (metis of_nat_0_le_iff not_less)
  next
    case False
    with Cons have n: "c \<notin> set s" by simp
    show ?thesis
    proof (cases "a = c")
      case True
      have "LastIndex (a # s) [c] = 0" using False True by (simp add: Let_def HasPrefix_def)
      moreover have "a # s = [] @ c # s" using True by simp
      ultimately show ?thesis using n by (metis list.size(3) of_nat_0 not_less order_refl)
    next
      case False
      with \<open>\<not> 0 \<le> LastIndex s [c]\<close> n show ?thesis by (simp add: Let_def HasPrefix_def)
    qed
  qed
qed

lemma LastIndex_pos_split:
  assumes "0 < LastIndex t [c]"
  shows "\<exists>pre post. t = pre @ c # post \<and> c \<notin> set post \<and> pre \<noteq> []
           \<and> take (nat (LastIndex t [c])) t = pre"
proof -
  from assms LastIndex_char [of t c] obtain pre post where
    p: "t = pre @ c # post" "c \<notin> set post" "LastIndex t [c] = int (length pre)"
    by force
  from assms p(3) have "pre \<noteq> []" by auto
  moreover have "take (nat (LastIndex t [c])) t = pre" using p(1,3) by simp
  ultimately show ?thesis using p(1,2) by blast
qed

section \<open>The capture: \<open>getStackBuffer\<close>\<close>

lemma written_length: "length (written rt cap all) \<le> cap"
  by (simp add: written_def)

lemma wrap64_id: "0 \<le> x \<Longrightarrow> x < 2 ^ 63 \<Longrightarrow> wrap64 x = x"
  by (simp add: wrap64_def)

lemma getStackBuffer_from_fits:
  assumes "length (written rt cap all) < cap"
  shows "getStackBuffer_from rt all (int cap) = Some (Return (written rt cap all))"
  using assms by (subst getStackBuffer_from.simps) (simp add: Let_def)

lemma getStackBuffer_from_full:
  assumes "length (written rt cap all) = cap" "int cap < 2 ^ 62"
  shows "getStackBuffer_from rt all (int cap) = getStackBuffer_from rt all (int (cap * 2))"
proof -
  have "wrap64 (int cap * 2) = int cap * 2"
    using assms(2) by (intro wrap64_id) simp_all
  with assms(1) show ?thesis
    by (subst getStackBuffer_from.simps) (simp add: Let_def)
qed

lemma attemptCapacity_Suc: "attemptCapacity (Suc k) = attemptCapacity k * 2"
  by (simp add: attemptCapacity_def)

lemma attemptCapacity_bound: "k < 46 \<Longrightarrow> int (attemptCapacity k) < 2 ^ 62"
proof -
  assume "k < 46"
  then have "(2::int) ^ k \<le> 2 ^ 45" by (intro power_increasing) simp_all
  then have "65536 * (2::int) ^ k \<le> 65536 * 2 ^ 45" by simp
  then show ?thesis by (simp add: attemptCapacity_def defaultBufferSize_def)
qed

lemma getStackBuffer_from_attempts:
  assumes "k \<le> 46"
    and "\<forall>j<k. length (written rt (attemptCapacity j) all) = attemptCapacity j"
    and "length (written rt (attemptCapacity k) all) < attemptCapacity k"
    and "m \<le> k"
  shows "getStackBuffer_from rt all (int (attemptCapacity (k - m)))
           = Some (Return (written rt (attemptCapacity k) all))"
  using assms(4)
proof (induction m)
  case 0
  show ?case using getStackBuffer_from_fits [OF assms(3)] by simp
next
  case (Suc m)
  then have lt: "k - Suc m < k" and m: "m \<le> k" by simp_all
  have s: "Suc (k - Suc m) = k - m" using Suc.prems by simp
  have full: "length (written rt (attemptCapacity (k - Suc m)) all) = attemptCapacity (k - Suc m)"
    using assms(2) lt by blast
  have b: "int (attemptCapacity (k - Suc m)) < 2 ^ 62"
    using lt assms(1) by (intro attemptCapacity_bound) simp
  have "getStackBuffer_from rt all (int (attemptCapacity (k - Suc m)))
          = getStackBuffer_from rt all (int (attemptCapacity (k - m)))"
    using getStackBuffer_from_full [OF full b] attemptCapacity_Suc [of "k - Suc m"] s by simp
  with Suc.IH [OF m] show ?case by simp
qed

lemma getStackBuffer_first_fit:
  assumes "k \<le> 46"
    and "\<forall>j<k. length (written rt (attemptCapacity j) all) = attemptCapacity j"
    and "length (written rt (attemptCapacity k) all) < attemptCapacity k"
  shows "getStackBuffer rt all = Some (Return (written rt (attemptCapacity k) all))"
  using getStackBuffer_from_attempts [OF assms, of k]
  by (simp add: getStackBuffer_def attemptCapacity_def defaultBufferSize_def)

lemma first_fit_exists:
  assumes "length (written rt (attemptCapacity k) all) < attemptCapacity k"
  shows "\<exists>j\<le>k. (\<forall>i<j. length (written rt (attemptCapacity i) all) = attemptCapacity i)
           \<and> length (written rt (attemptCapacity j) all) < attemptCapacity j"
proof -
  define P where "P j \<longleftrightarrow> length (written rt (attemptCapacity j) all) < attemptCapacity j" for j
  define j where "j = (LEAST j. P j)"
  have Pk: "P k" using assms by (simp add: P_def)
  have Pj: "P j" unfolding j_def using Pk by (rule LeastI)
  have jk: "j \<le> k" unfolding j_def using Pk by (rule Least_le)
  have "length (written rt (attemptCapacity i) all) = attemptCapacity i" if "i < j" for i
  proof -
    from that have "\<not> P i" using not_less_Least unfolding j_def by blast
    with written_length [of rt "attemptCapacity i" all] show ?thesis
      by (simp add: P_def)
  qed
  with Pj jk show ?thesis unfolding P_def by blast
qed

text \<open>
  C5. \<open>getStackBuffer\<close> offers the capacities 64 KiB, 128 KiB, ... and goes on to the
  next one whenever the number of bytes written equals the capacity. When at one of the
  capacities that a 64-bit \<open>int\<close> can hold the number written is smaller than the
  capacity, the function returns, at the first such capacity, exactly the bytes written
  there, and these are the whole text that the runtime had for that call.
\<close>

theorem getStackBuffer_doubling:
  assumes "k \<le> 46" and "length (written rt (attemptCapacity k) all) < attemptCapacity k"
  shows "\<exists>j\<le>k. (\<forall>i<j. length (written rt (attemptCapacity i) all) = attemptCapacity i)
           \<and> length (written rt (attemptCapacity j) all) < attemptCapacity j
           \<and> written rt (attemptCapacity j) all = rt (attemptCapacity j) all
           \<and> getStackBuffer rt all = Some (Return (rt (attemptCapacity j) all))"
proof -
  from first_fit_exists [OF assms(2)] obtain j where j: "j \<le> k"
    "\<forall>i<j. length (written rt (attemptCapacity i) all) = attemptCapacity i"
    "length (written rt (attemptCapacity j) all) < attemptCapacity j"
    by blast
  have whole: "written rt (attemptCapacity j) all = rt (attemptCapacity j) all"
    using j(3) by (simp add: written_def min_def split: if_splits)
  have "j \<le> 46" using j(1) assms(1) by simp
  from getStackBuffer_first_fit [OF this j(2,3)] j whole
  show ?thesis by auto
qed

theorem getStackBuffer_doubling_witness:
  "(1::nat) \<le> 46
   \<and> length (written (fakeStack (replicate 70000 CHR ''x'')) (attemptCapacity 1) True)
        < attemptCapacity 1
   \<and> length (written (fakeStack (replicate 70000 CHR ''x'')) (attemptCapacity 0) True)
        = attemptCapacity 0
   \<and> getStackBuffer (fakeStack (replicate 70000 CHR ''x'')) True
        = Some (Return (replicate 70000 CHR ''x''))"
proof -
  let ?rt = "fakeStack (replicate 70000 CHR ''x'')"
  have 1: "(1::nat) \<le> 46" by simp
  have 2: "length (written ?rt (attemptCapacity 1) True) < attemptCapacity 1"
    by (simp add: written_def fakeStack_def attemptCapacity_def defaultBufferSize_def)
  have 3: "length (written ?rt (attemptCapacity 0) True) = attemptCapacity 0"
    by (simp add: written_def fakeStack_def attemptCapacity_def defaultBufferSize_def)
  from getStackBuffer_doubling [OF 1 2] obtain j where
    j: "j \<le> 1" "length (written ?rt (attemptCapacity j) True) < attemptCapacity j"
       "getStackBuffer ?rt True = Some (Return (?rt (attemptCapacity j) True))"
    by blast
  then have "getStackBuffer ?rt True = Some (Return (replicate 70000 CHR ''x''))"
    by (simp add: fakeStack_def)
  with 1 2 3 show ?thesis by blast
qed

text \<open>
  When the buffer is full at every capacity up to \<open>2^62\<close>, the next doubling leaves
  the range of \<open>int\<close> and \<open>make\<close> panics. So \<open>getStackBuffer\<close> always ends, and it
  returns only at the first capacity that is not filled.
\<close>

lemma getStackBuffer_from_last:
  assumes "length (written rt (attemptCapacity 46) all) = attemptCapacity 46"
  shows "getStackBuffer_from rt all (int (attemptCapacity 46)) = Some (Panic MakesliceLenOutOfRange)"
proof -
  have c: "int (attemptCapacity 46) = 4611686018427387904"
    by (simp add: attemptCapacity_def defaultBufferSize_def)
  have a: "length (written rt 4611686018427387904 all) = 4611686018427387904"
    using assms by (simp add: attemptCapacity_def defaultBufferSize_def)
  have w: "wrap64 9223372036854775808 = - 9223372036854775808"
    by (simp add: wrap64_def)
  have neg: "getStackBuffer_from rt all (- 9223372036854775808) = Some (Panic MakesliceLenOutOfRange)"
    by (subst getStackBuffer_from.simps) simp
  show ?thesis
    unfolding c
    by (subst getStackBuffer_from.simps) (simp add: Let_def a w neg)
qed

lemma getStackBuffer_never_fits:
  assumes "\<forall>k\<le>46. length (written rt (attemptCapacity k) all) = attemptCapacity k"
  shows "getStackBuffer rt all = Some (Panic MakesliceLenOutOfRange)"
proof -
  have "m \<le> 46 \<Longrightarrow> getStackBuffer_from rt all (int (attemptCapacity (46 - m)))
          = Some (Panic MakesliceLenOutOfRange)" for m
  proof (induction m)
    case 0
    show ?case using getStackBuffer_from_last assms by simp
  next
    case (Suc m)
    then have lt: "46 - Suc m < 46" and m: "m \<le> 46" by simp_all
    have s: "Suc (46 - Suc m) = 46 - m" using Suc.prems by simp
    have full: "length (written rt (attemptCapacity (46 - Suc m)) all) = attemptCapacity (46 - Suc m)"
      using assms by simp
    have b: "int (attemptCapacity (46 - Suc m)) < 2 ^ 62"
      using lt by (rule attemptCapacity_bound)
    have "getStackBuffer_from rt all (int (attemptCapacity (46 - Suc m)))
            = getStackBuffer_from rt all (int (attemptCapacity (46 - m)))"
      using getStackBuffer_from_full [OF full b] attemptCapacity_Suc [of "46 - Suc m"] s by simp
    with Suc.IH [OF m] show ?case by simp
  qed
  from this [of 46] show ?thesis
    by (simp add: getStackBuffer_def attemptCapacity_def defaultBufferSize_def)
qed

lemma getStackBuffer_returns_only_on_fit:
  assumes "getStackBuffer rt all = Some (Return x)"
  shows "\<exists>j\<le>46. (\<forall>i<j. length (written rt (attemptCapacity i) all) = attemptCapacity i)
           \<and> length (written rt (attemptCapacity j) all) < attemptCapacity j
           \<and> x = written rt (attemptCapacity j) all"
proof -
  have "\<exists>k\<le>46. length (written rt (attemptCapacity k) all) < attemptCapacity k"
  proof (rule ccontr)
    assume "\<not> ?thesis"
    then have "\<forall>k\<le>46. length (written rt (attemptCapacity k) all) = attemptCapacity k"
      using written_length [of rt _ all] by (auto simp: le_less)
    from getStackBuffer_never_fits [OF this] assms show False by simp
  qed
  then obtain k where k: "k \<le> 46" "length (written rt (attemptCapacity k) all) < attemptCapacity k"
    by blast
  from first_fit_exists [OF k(2)] obtain j where j: "j \<le> k"
    "\<forall>i<j. length (written rt (attemptCapacity i) all) = attemptCapacity i"
    "length (written rt (attemptCapacity j) all) < attemptCapacity j"
    by blast
  have j46: "j \<le> 46" using j(1) k(1) by simp
  from getStackBuffer_first_fit [OF j46 j(2,3)] assms
  have "x = written rt (attemptCapacity j) all" by simp
  with j46 j(2,3) show ?thesis by blast
qed

lemma getStackBuffer_total: "\<exists>r. getStackBuffer rt all = Some r"
proof (cases "\<forall>k\<le>46. length (written rt (attemptCapacity k) all) = attemptCapacity k")
  case True
  from getStackBuffer_never_fits [OF True] show ?thesis by simp
next
  case False
  then obtain k where k: "k \<le> 46" "length (written rt (attemptCapacity k) all) \<noteq> attemptCapacity k"
    by blast
  with written_length [of rt "attemptCapacity k" all]
  have "length (written rt (attemptCapacity k) all) < attemptCapacity k" by simp
  from first_fit_exists [OF this] obtain j where j: "j \<le> k"
    "\<forall>i<j. length (written rt (attemptCapacity i) all) = attemptCapacity i"
    "length (written rt (attemptCapacity j) all) < attemptCapacity j"
    by blast
  have "j \<le> 46" using j(1) k(1) by simp
  from getStackBuffer_first_fit [OF this j(2,3)] show ?thesis by simp
qed

text \<open>A stand-in with one dump for all calls yields that dump, untruncated.\<close>

lemma getStackBuffer_fakeStack:
  assumes "length dump < 2 ^ 62"
  shows "getStackBuffer (fakeStack dump) all = Some (Return dump)"
proof -
  define P where "P k \<longleftrightarrow> length dump < attemptCapacity k" for k
  have "P 46" using assms by (simp add: P_def attemptCapacity_def defaultBufferSize_def)
  define k where "k = (LEAST k. P k)"
  have k: "P k" unfolding k_def using \<open>P 46\<close> by (rule LeastI)
  have k46: "k \<le> 46" unfolding k_def using \<open>P 46\<close> by (rule Least_le)
  have least: "\<not> P j" if "j < k" for j
    using that not_less_Least unfolding k_def by blast
  have w: "written (fakeStack dump) (attemptCapacity k) all = dump"
    using k by (simp add: written_def fakeStack_def P_def)
  have full: "\<forall>j<k. length (written (fakeStack dump) (attemptCapacity j) all) = attemptCapacity j"
    using least by (fastforce simp: written_def fakeStack_def P_def min_def)
  have fit: "length (written (fakeStack dump) (attemptCapacity k) all) < attemptCapacity k"
    using k w by (simp add: P_def)
  show ?thesis using getStackBuffer_first_fit [OF k46 full fit] w by simp
qed

lemma getStackBuffer_fakeStack_small:
  "length dump < 65536 \<Longrightarrow> getStackBuffer (fakeStack dump) all = Some (Return dump)"
  by (rule getStackBuffer_fakeStack) simp

lemma methodDump_capture:
  "getStackBuffer (fakeStack methodDump) all = Some (Return methodDump)"
  by (rule getStackBuffer_fakeStack_small) (simp add: methodDump_def)

lemma methodDump_stacks: "getStacks_on methodDump = Return ([methodStack], None)"
  by code_simp

section \<open>Parsing a dump of records\<close>

lemma loopBody_header:
  assumes "idText r \<noteq> []" "list_all isDigit (idText r)" "decimalVal (idText r) < 2 ^ 63"
  shows "loopBody (headerLine r) stacks curStack =
     Return (Go (flush stacks curStack)
       (Some \<lparr>id = decimalVal (idText r), state = stateText r, firstFunction = [],
              fullStack = headerLine r\<rparr>))"
  by (simp add: loopBody_def headerLine_isHeader parseGoStackHeader_headerLine [OF assms]
      writeLine_def Let_def)

lemma loopBody_first_body:
  assumes "\<not> isHeader b" "firstFunction c = []" "0 < LastIndex (TrimSpace b) ''(''"
  shows "loopBody b stacks (Some c) =
     Return (Go stacks (Some (c\<lparr>fullStack := fullStack c @ b,
        firstFunction := take (nat (LastIndex (TrimSpace b) ''('')) (TrimSpace b)\<rparr>)))"
  using assms
  by (simp add: loopBody_def isHeader_def writeLine_def parseFirstFunc_def Let_def)

lemma loopBody_later_body:
  assumes "\<not> isHeader b" "firstFunction c \<noteq> []"
  shows "loopBody b stacks (Some c) = Return (Go stacks (Some (c\<lparr>fullStack := fullStack c @ b\<rparr>)))"
  using assms
  by (simp add: loopBody_def isHeader_def writeLine_def Let_def)

lemma getStacks_loop_later_bodies:
  assumes "list_all (\<lambda>b. isLine b \<and> \<not> isHeader b) bs" "firstFunction c \<noteq> []"
  shows "getStacks_loop (concat bs @ rest) stacks (Some c) =
           getStacks_loop rest stacks (Some (c\<lparr>fullStack := fullStack c @ concat bs\<rparr>))"
  using assms
proof (induction bs arbitrary: c)
  case Nil
  then show ?case by simp
next
  case (Cons b bs)
  from Cons.prems have b: "isLine b" "\<not> isHeader b" and bs: "list_all (\<lambda>b. isLine b \<and> \<not> isHeader b) bs"
    by simp_all
  have "getStacks_loop (concat (b # bs) @ rest) stacks (Some c)
          = getStacks_loop (concat bs @ rest) stacks (Some (c\<lparr>fullStack := fullStack c @ b\<rparr>))"
    using getStacks_loop_isLine [OF b(1), of "concat bs @ rest" stacks "Some c"]
    by (simp add: loopBody_later_body [OF b(2) Cons.prems(2)])
  also have "\<dots> = getStacks_loop rest stacks
       (Some (c\<lparr>fullStack := fullStack c @ b\<rparr>\<lparr>fullStack := fullStack (c\<lparr>fullStack := fullStack c @ b\<rparr>) @ concat bs\<rparr>))"
    by (rule Cons.IH [OF bs]) (simp add: Cons.prems(2))
  finally show ?case by simp
qed

lemma getStacks_loop_record:
  assumes "wellFormed r"
  shows "getStacks_loop (recordText r @ rest) stacks curStack =
           getStacks_loop rest (flush stacks curStack) (Some (stackOf r))"
proof -
  from assms have id: "idText r \<noteq> []" "list_all isDigit (idText r)" "decimalVal (idText r) < 2 ^ 63"
    and st: "newline \<notin> set (stateText r)"
    and body: "bodyLines r \<noteq> []" "list_all (\<lambda>b. isLine b \<and> \<not> isHeader b) (bodyLines r)"
    and paren: "0 < LastIndex (TrimSpace (hd (bodyLines r))) ''(''"
    by (simp_all add: wellFormed_def recordAsClaimed_def)
  from body(1) obtain b bs where bb: "bodyLines r = b # bs" by (cases "bodyLines r") auto
  with body(2) paren have b: "isLine b" "\<not> isHeader b" "0 < LastIndex (TrimSpace b) ''(''"
    and bs: "list_all (\<lambda>b. isLine b \<and> \<not> isHeader b) bs"
    by simp_all
  let ?c0 = "\<lparr>id = decimalVal (idText r), state = stateText r, firstFunction = [],
              fullStack = headerLine r\<rparr>"
  let ?f = "take (nat (LastIndex (TrimSpace b) ''('')) (TrimSpace b)"
  let ?c1 = "?c0\<lparr>fullStack := fullStack ?c0 @ b, firstFunction := ?f\<rparr>"
  have f: "firstFunction ?c1 \<noteq> []"
    using b(3) LastIndex_pos_nonempty [OF b(3)] by simp
  have "getStacks_loop (recordText r @ rest) stacks curStack
          = getStacks_loop (headerLine r @ (b @ concat bs @ rest)) stacks curStack"
    by (simp add: recordText_def bb)
  also have "\<dots> = getStacks_loop (b @ concat bs @ rest) (flush stacks curStack) (Some ?c0)"
    by (simp add: getStacks_loop_isLine [OF headerLine_isLine [OF id(2) st]] loopBody_header [OF id])
  also have "\<dots> = getStacks_loop (concat bs @ rest) (flush stacks curStack) (Some ?c1)"
    using loopBody_first_body [OF b(2) _ b(3), of ?c0 "flush stacks curStack"]
    by (simp add: getStacks_loop_isLine [OF b(1)])
  also have "\<dots> = getStacks_loop rest (flush stacks curStack)
                     (Some (?c1\<lparr>fullStack := fullStack ?c1 @ concat bs\<rparr>))"
    by (rule getStacks_loop_later_bodies [OF bs f])
  also have "?c1\<lparr>fullStack := fullStack ?c1 @ concat bs\<rparr> = stackOf r"
    by (simp add: stackOf_def recordText_def bb Let_def)
  finally show ?thesis .
qed

lemma getStacks_loop_records:
  assumes "list_all wellFormed rs" "rs \<noteq> []"
  shows "getStacks_loop (dumpText rs @ rest) stacks curStack =
           getStacks_loop rest (flush stacks curStack @ map stackOf (butlast rs))
             (Some (stackOf (last rs)))"
  using assms
proof (induction rs arbitrary: stacks curStack)
  case Nil
  then show ?case by simp
next
  case (Cons r rs)
  from Cons.prems have r: "wellFormed r" and rs: "list_all wellFormed rs" by simp_all
  have step: "getStacks_loop (dumpText (r # rs) @ rest) stacks curStack
          = getStacks_loop (dumpText rs @ rest) (flush stacks curStack) (Some (stackOf r))"
    using getStacks_loop_record [OF r, of "dumpText rs @ rest" stacks curStack]
    by (simp add: dumpText_def)
  show ?case
  proof (cases "rs = []")
    case True
    with step show ?thesis by (simp add: dumpText_def)
  next
    case False
    with step Cons.IH [OF rs False, of "flush stacks curStack" "Some (stackOf r)"]
    show ?thesis by (simp add: flush_def)
  qed
qed

lemma getStacks_on_records:
  assumes "list_all wellFormed rs" "rs \<noteq> []"
  shows "getStacks_on (dumpText rs) = Return (map stackOf rs, None)"
proof -
  have "getStacks_loop (dumpText rs) [] None
          = Return (Go (map stackOf (butlast rs)) (Some (stackOf (last rs))))"
    using getStacks_loop_records [OF assms, of "[]" "[]" None]
    by (simp add: getStacks_loop_eof flush_def)
  moreover have "map stackOf (butlast rs) @ [stackOf (last rs)] = map stackOf rs"
    using assms(2) by (metis append_butlast_last_id list.simps(8,9) map_append)
  ultimately show ?thesis
    using assms(2) by (simp add: getStacks_on_def flush_def Let_def)
qed

lemma exampleDump_length: "length (dumpText exampleDump) < 65536"
  by (simp add: dumpText_def exampleDump_def recordText_def headerLine_def)

text \<open>
  C1, with the records as the code accepts them. For a dump that consists of one or
  more records, each a header line \<open>goroutine <id> [<state>]:\<close> with a decimal id below
  \<open>2^63\<close>, followed by one or more body lines that are not header lines, the first of
  which, trimmed, has its last \<open>(\<close> after its first byte, \<open>getStacks\<close> returns one
  \<open>Stack\<close> for each record, in the order of the dump, with the id and the state of the
  header line and with the header line and the body lines of the record as its full text.
\<close>

theorem getStacks_wellFormed_dump:
  assumes "rs \<noteq> []" and "list_all wellFormed rs"
    and "getStackBuffer rt all = Some (Return (dumpText rs))"
  shows "getStacks rt all = Some (Return (map stackOf rs, None))"
  using getStacks_capture [OF assms(3)] getStacks_on_records [OF assms(2,1)] by simp

theorem getStacks_wellFormed_dump_witness:
  "exampleDump \<noteq> [] \<and> list_all wellFormed exampleDump
   \<and> getStackBuffer (fakeStack (dumpText exampleDump)) True = Some (Return (dumpText exampleDump))
   \<and> getStacks (fakeStack (dumpText exampleDump)) True =
       Some (Return
         ([\<lparr>id = 1, state = ''running'', firstFunction = ''main.main'',
            fullStack = ''goroutine 1 [running]:\<newline>main.main()\<newline>''
                        @ CHR 0x09 # ''/app/main.go:12 +0x1d\<newline>''\<rparr>,
           \<lparr>id = 18, state = ''chan receive'', firstFunction = ''main.(*worker).run'',
            fullStack = ''goroutine 18 [chan receive]:\<newline>main.(*worker).run(0xc000010000)\<newline>''\<rparr>],
          None))"
proof -
  have 1: "exampleDump \<noteq> []" by (simp add: exampleDump_def)
  have 2: "list_all wellFormed exampleDump" by code_simp
  have 3: "getStackBuffer (fakeStack (dumpText exampleDump)) True
             = Some (Return (dumpText exampleDump))"
    by (rule getStackBuffer_fakeStack_small [OF exampleDump_length])
  have 4: "map stackOf exampleDump =
         [\<lparr>id = 1, state = ''running'', firstFunction = ''main.main'',
            fullStack = ''goroutine 1 [running]:\<newline>main.main()\<newline>''
                        @ CHR 0x09 # ''/app/main.go:12 +0x1d\<newline>''\<rparr>,
           \<lparr>id = 18, state = ''chan receive'', firstFunction = ''main.(*worker).run'',
            fullStack = ''goroutine 18 [chan receive]:\<newline>main.(*worker).run(0xc000010000)\<newline>''\<rparr>]"
    by code_simp
  show ?thesis
    using getStacks_wellFormed_dump [OF 1 2 3] 1 2 3 by (simp only: 4) simp
qed

text \<open>
  C1 as the specification has it fails on two dumps of its grammar. An id of
  \<open>2^63\<close> is decimal, and \<open>strconv.Atoi\<close> rejects it: \<open>getStacks\<close> returns an error.
  A first body line without \<open>(\<close> is a body line, and \<open>parseFirstFunc\<close> panics on it.
\<close>

theorem getStacks_rejects_claimed_dumps:
  "list_all recordAsClaimed overflowDump
   \<and> getStacks (fakeStack (dumpText overflowDump)) True =
       Some (Return ([], Some (FmtErrorf ''failed to parse goroutine ID: %v in line %q''
          [''9223372036854775808'', ''goroutine 9223372036854775808 [running]''])))
   \<and> list_all recordAsClaimed plainBodyDump
   \<and> getStacks (fakeStack (dumpText plainBodyDump)) True =
       Some (Panic (PanicSprintf ''function calls missing parents: %q'' [''body text'']))"
proof -
  have l1: "length (dumpText overflowDump) < 65536"
    by (simp add: dumpText_def overflowDump_def recordText_def headerLine_def)
  have l2: "length (dumpText plainBodyDump) < 65536"
    by (simp add: dumpText_def plainBodyDump_def recordText_def headerLine_def)
  have 1: "list_all recordAsClaimed overflowDump" by code_simp
  have 2: "getStacks_on (dumpText overflowDump) =
       Return ([], Some (FmtErrorf ''failed to parse goroutine ID: %v in line %q''
          [''9223372036854775808'', ''goroutine 9223372036854775808 [running]'']))"
    by code_simp
  have 3: "list_all recordAsClaimed plainBodyDump" by code_simp
  have 4: "getStacks_on (dumpText plainBodyDump) =
       Panic (PanicSprintf ''function calls missing parents: %q'' [''body text''])"
    by code_simp
  show ?thesis
    using 1 2 3 4
      getStacks_capture [OF getStackBuffer_fakeStack_small [OF l1]]
      getStacks_capture [OF getStackBuffer_fakeStack_small [OF l2]]
    by simp
qed

section \<open>Parse failures\<close>

text \<open>
  A header line that \<open>parseGoStackHeader\<close> rejects makes \<open>getStacks\<close> return the error
  and no stack, also after records that were parsed. This covers the header with fewer than three
  fields and the id that is no number.
\<close>

lemma loopBody_header_error:
  assumes "HasPrefix line ''goroutine ''" "parseGoStackHeader line = (n, g, Some e)"
  shows "loopBody line stacks curStack = Return (Ret [] (Some e))"
  using assms by (simp add: loopBody_def)

lemma getStacks_on_header_error:
  assumes "list_all wellFormed rs" "isLine line" "HasPrefix line ''goroutine ''"
    and "parseGoStackHeader line = (n, g, Some e)"
  shows "getStacks_on (dumpText rs @ line @ rest) = Return ([], Some e)"
proof -
  have "getStacks_loop (line @ rest) stacks curStack = Return (Ret [] (Some e))"
    for stacks curStack
    by (simp add: getStacks_loop_isLine [OF assms(2)] loopBody_header_error [OF assms(3,4)])
  then have "getStacks_loop (dumpText rs @ line @ rest) [] None = Return (Ret [] (Some e))"
    using getStacks_loop_records [OF assms(1), of "line @ rest" "[]" None]
    by (cases "rs = []") (simp_all add: dumpText_def)
  then show ?thesis by (simp add: getStacks_on_def)
qed

text \<open>
  C2 fails for the third failure it names. On a first body line without \<open>(\<close>,
  \<open>parseFirstFunc\<close> panics: \<open>getStacks\<close> returns neither an error nor stacks.
\<close>

theorem getStacks_missing_paren_panics:
  "getStacks (fakeStack noParenDump) True =
     Some (Panic (PanicSprintf ''function calls missing parents: %q'' [''goroutine running on other thread; stack unavailable'']))"
proof -
  have "getStackBuffer (fakeStack noParenDump) True = Some (Return noParenDump)"
    by (rule getStackBuffer_fakeStack_small) (simp add: noParenDump_def)
  moreover have "getStacks_on noParenDump =
      Panic (PanicSprintf ''function calls missing parents: %q'' [''goroutine running on other thread; stack unavailable''])"
    by code_simp
  ultimately show ?thesis by (simp add: getStacks_def)
qed

section \<open>The function of a stack\<close>

lemma firstFunctionFrom_nonempty:
  "firstFunctionFrom (h # b # rest) f \<Longrightarrow> f \<noteq> []"
  by (auto simp: firstFunctionFrom_def Let_def dest: LastIndex_pos_nonempty)

lemma recordInv_header:
  assumes "isLine line" "isHeader line"
  shows "recordInv \<lparr>id = n, state = st, firstFunction = [], fullStack = line\<rparr>"
  unfolding recordInv_def
  by (rule exI [of _ "[line]"]) (simp add: assms firstFunctionFrom_def)

lemma recordInv_body:
  assumes "recordInv c" "isLine b" "\<not> isHeader b"
    and "writeLine b False stacks (Some c) = Return (Go st (Some c'))"
  shows "recordInv c'"
proof -
  from assms(1) obtain ls where ls: "ls \<noteq> []" "list_all isLine ls" "isHeader (hd ls)"
    "list_all (\<lambda>b. \<not> isHeader b) (tl ls)" "fullStack c = concat ls"
    "firstFunctionFrom ls (firstFunction c)"
    unfolding recordInv_def by blast
  from ls(1) obtain h bs where hb: "ls = h # bs" by (cases ls) auto
  have full: "fullStack c' = concat (ls @ [b])"
    using assms(4) ls(5)
    by (auto simp: writeLine_def Let_def split: if_splits outcome.splits)
  have ff: "firstFunctionFrom (ls @ [b]) (firstFunction c')"
  proof (cases bs)
    case Nil
    with hb ls(6) have "firstFunction c = []" by (simp add: firstFunctionFrom_def)
    with assms(4) show ?thesis
      by (auto simp: writeLine_def Let_def parseFirstFunc_def firstFunctionFrom_def hb Nil
          split: if_splits outcome.splits)
  next
    case (Cons b1 rest)
    with hb ls(6) have ne: "firstFunction c \<noteq> []"
      using firstFunctionFrom_nonempty by blast
    with assms(4) have "firstFunction c' = firstFunction c"
      by (auto simp: writeLine_def Let_def)
    with ls(6) show ?thesis by (simp add: firstFunctionFrom_def hb Cons)
  qed
  show ?thesis
    unfolding recordInv_def
    by (rule exI [of _ "ls @ [b]"]) (use ls hb assms(2,3) full ff in simp)
qed

lemma loopBody_recordInv:
  assumes "list_all recordInv (flush st cu)" "isLine line"
    and "loopBody line st cu = Return (Go st' cu')"
  shows "list_all recordInv (flush st' cu')"
proof (cases "isHeader line")
  case True
  with assms(3) obtain n g where
    "st' = flush st cu" "cu' = Some \<lparr>id = n, state = g, firstFunction = [], fullStack = line\<rparr>"
    by (auto simp: loopBody_def isHeader_def writeLine_def Let_def
        split: prod.splits option.splits)
  with assms(1) recordInv_header [OF assms(2) True] show ?thesis
    by (simp add: flush_def)
next
  case False
  with assms(3) obtain c c' where
    c: "cu = Some c" "cu' = Some c'" "st' = st"
    and w: "writeLine line False st (Some c) = Return (Go st (Some c'))"
    by (auto simp: loopBody_def isHeader_def writeLine_def Let_def
        split: option.splits if_splits outcome.splits)
  from assms(1) c have "recordInv c" by (simp add: flush_def)
  from recordInv_body [OF this assms(2) False w] assms(1) c show ?thesis
    by (simp add: flush_def)
qed

lemma getStacks_on_recordInv:
  assumes "getStacks_on buf = Return (stacks, None)"
  shows "list_all recordInv stacks"
proof (cases "getStacks_loop buf [] None")
  case (Panic p)
  with assms show ?thesis by (simp add: getStacks_on_def)
next
  case (Return f)
  show ?thesis
  proof (cases f)
    case (Ret r e)
    with Return getStacks_loop_Ret have "e \<noteq> None" by blast
    with Return Ret assms show ?thesis by (simp add: getStacks_on_def)
  next
    case (Go st cu)
    have "list_all recordInv (flush st cu)"
      by (rule getStacks_loop_invariant
            [where I = "\<lambda>st cu. list_all recordInv (flush st cu)", OF Return [unfolded Go]])
         (simp_all add: flush_def loopBody_recordInv [unfolded flush_def])
    with Return Go assms show ?thesis
      by (simp add: getStacks_on_def Let_def split: if_splits)
  qed
qed

lemma getStacks_Return:
  assumes "getStacks rt all = Some (Return res)"
  obtains buf where "getStackBuffer rt all = Some (Return buf)" "getStacks_on buf = Return res"
  using assms by (auto simp: getStacks_def split: option.splits outcome.splits)

text \<open>
  C4, with the parenthesis that the code takes. The text of every \<open>Stack\<close> that
  \<open>getStacks\<close> returns starts with a header line. When a body line follows it, the
  first of them, trimmed, is \<open>pre @ ''('' @ post\<close> with no \<open>(\<close> in \<open>post\<close> and \<open>pre\<close>
  not empty, and \<open>firstFunction\<close> is \<open>pre\<close>: the text before the last \<open>(\<close>. When no
  body line follows, \<open>firstFunction\<close> is empty.
\<close>

theorem first_function_before_last_paren:
  assumes "getStacks rt all = Some (Return (stacks, None))" and "s \<in> set stacks"
  shows "case completeLines (fullStack s) of
           h # b # rest \<Rightarrow>
             isHeader h \<and> \<not> isHeader b
             \<and> (\<exists>pre post. TrimSpace b = pre @ ''('' @ post \<and> CHR ''('' \<notin> set post
                   \<and> pre \<noteq> [] \<and> firstFunction s = pre)
         | _ \<Rightarrow> firstFunction s = []"
proof -
  from assms(1) obtain buf where "getStacks_on buf = Return (stacks, None)"
    by (rule getStacks_Return)
  from getStacks_on_recordInv [OF this] assms(2) have "recordInv s"
    by (simp add: list_all_iff)
  then obtain ls where ls: "ls \<noteq> []" "list_all isLine ls" "isHeader (hd ls)"
    "list_all (\<lambda>b. \<not> isHeader b) (tl ls)" "fullStack s = concat ls"
    "firstFunctionFrom ls (firstFunction s)"
    unfolding recordInv_def by blast
  have c: "completeLines (fullStack s) = ls"
    using completeLines_concat [OF ls(2)] ls(5) by simp
  show ?thesis
  proof (cases ls)
    case Nil
    with ls(1) show ?thesis by simp
  next
    case (Cons h bs)
    show ?thesis
    proof (cases bs)
      case Nil
      with Cons ls(6) show ?thesis by (simp add: c firstFunctionFrom_def)
    next
      case (Cons b rest)
      with \<open>ls = h # bs\<close> ls(6) have
        p: "0 < LastIndex (TrimSpace b) ''(''"
        and f: "firstFunction s = take (nat (LastIndex (TrimSpace b) ''('')) (TrimSpace b)"
        by (simp_all add: firstFunctionFrom_def Let_def)
      from LastIndex_pos_split [OF p] f have
        "\<exists>pre post. TrimSpace b = pre @ ''('' @ post \<and> CHR ''('' \<notin> set post
           \<and> pre \<noteq> [] \<and> firstFunction s = pre"
        by auto
      with Cons \<open>ls = h # bs\<close> ls(3,4) show ?thesis by (simp add: c)
    qed
  qed
qed

theorem first_function_before_last_paren_witness:
  "getStacks (fakeStack methodDump) True = Some (Return ([methodStack], None))
   \<and> methodStack \<in> set [methodStack]
   \<and> completeLines (fullStack methodStack)
        = [''goroutine 1 [running]:\<newline>'', ''main.(*T).run(0x1)\<newline>'']
   \<and> (\<exists>pre post. TrimSpace ''main.(*T).run(0x1)\<newline>'' = pre @ ''('' @ post
          \<and> CHR ''('' \<notin> set post \<and> pre \<noteq> [] \<and> firstFunction methodStack = pre)"
proof -
  have 1: "getStacks (fakeStack methodDump) True = Some (Return ([methodStack], None))"
    using getStacks_capture [OF methodDump_capture] methodDump_stacks by simp
  have 2: "methodStack \<in> set [methodStack]" by simp
  have 3: "completeLines (fullStack methodStack)
        = [''goroutine 1 [running]:\<newline>'', ''main.(*T).run(0x1)\<newline>'']"
    by code_simp
  show ?thesis
    using first_function_before_last_paren [OF 1 2] 1 2 3 by (simp only: 3 list.case)
qed

text \<open>
  C4 as the specification has it fails where the line has more than one \<open>(\<close>: for the
  method \<open>main.(*T).run\<close> the text before the first \<open>(\<close> is \<open>main.\<close>.
\<close>

theorem first_function_not_first_paren:
  "getStacks (fakeStack methodDump) True = Some (Return ([methodStack], None))
   \<and> firstFunction methodStack = ''main.(*T).run''
   \<and> claimedFirstFunction ''main.(*T).run(0x1)\<newline>'' = ''main.''"
proof -
  have 1: "getStacks (fakeStack methodDump) True = Some (Return ([methodStack], None))"
    using getStacks_capture [OF methodDump_capture] methodDump_stacks by simp
  have 2: "claimedFirstFunction ''main.(*T).run(0x1)\<newline>'' = ''main.''"
    by code_simp
  show ?thesis using 1 2 by (simp add: methodStack_def)
qed

section \<open>No records, no header, no line feed\<close>

text \<open>
  C6. When the loop is left with no stack collected and none started, \<open>getStacks\<close>
  returns no stacks and the error \<open>errNoStacks\<close>. This is so exactly for the inputs
  without a line feed, the empty input among them.
\<close>

theorem getStacks_no_records:
  assumes "getStackBuffer rt all = Some (Return buf)"
    and "getStacks_loop buf [] None = Return (Go [] None)"
  shows "getStacks rt all = Some (Return ([], Some errNoStacks))"
  using getStacks_capture [OF assms(1)] assms(2)
  by (simp add: getStacks_on_def flush_def)

theorem getStacks_no_records_witness:
  "getStackBuffer (fakeStack []) True = Some (Return [])
   \<and> getStacks_loop [] [] None = Return (Go [] None)
   \<and> getStacks (fakeStack []) True = Some (Return ([], Some errNoStacks))"
proof -
  have 1: "getStackBuffer (fakeStack []) True = Some (Return [])"
    by (rule getStackBuffer_fakeStack_small) simp
  have 2: "getStacks_loop [] [] None = Return (Go [] None)"
    by (rule getStacks_loop_eof) simp
  from getStacks_no_records [OF 1 2] 1 2 show ?thesis by simp
qed

lemma getStacks_loop_Some:
  "getStacks_loop rd stacks curStack = Return (Go stacks1 curStack1) \<Longrightarrow> curStack \<noteq> None
   \<Longrightarrow> curStack1 \<noteq> None"
proof (induction rd stacks curStack rule: getStacks_loop.induct)
  case (1 rd stacks curStack)
  show ?case
  proof (cases "ReadString rd newline")
    case (fields line err rd')
    show ?thesis
    proof (cases err)
      case None
      with fields 1(2) obtain st cu where
        b: "loopBody line stacks curStack = Return (Go st cu)"
        and r: "getStacks_loop rd' st cu = Return (Go stacks1 curStack1)"
        by (subst (asm) getStacks_loop.simps)
           (auto split: outcome.splits flow.splits)
      show ?thesis
        using 1(1) [OF fields [symmetric] refl None b refl r] loopBody_Some [OF b] by simp
    next
      case (Some e)
      with fields 1(2,3) show ?thesis
        by (subst (asm) getStacks_loop.simps) (auto split: io_error.splits)
    qed
  qed
qed

lemma getStacks_loop_empty_iff:
  "getStacks_loop buf [] None = Return (Go [] None) \<longleftrightarrow> newline \<notin> set buf"
proof
  assume a: "getStacks_loop buf [] None = Return (Go [] None)"
  show "newline \<notin> set buf"
  proof
    assume "newline \<in> set buf"
    from split_first_newline [OF this] obtain l rest
      where s: "buf = l @ newline # rest" and l: "newline \<notin> set l" by blast
    from a obtain st cu where
      b: "loopBody (l @ [newline]) [] None = Return (Go st cu)"
      and r: "getStacks_loop rest st cu = Return (Go [] None)"
      unfolding s getStacks_loop_line [OF l]
      by (auto split: outcome.splits flow.splits)
    from getStacks_loop_Some [OF r loopBody_Some [OF b]] show False by simp
  qed
next
  assume "newline \<notin> set buf"
  then show "getStacks_loop buf [] None = Return (Go [] None)"
    by (rule getStacks_loop_eof)
qed

lemma loopBody_no_stack:
  "\<not> HasPrefix line ''goroutine '' \<Longrightarrow> loopBody line stacks None = Panic NilPointerDereference"
  by (simp add: loopBody_def writeLine_def)

lemma getStacks_on_first_line_not_header:
  assumes "newline \<notin> set l" "\<not> HasPrefix (l @ [newline]) ''goroutine ''"
  shows "getStacks_on (l @ newline # rest) = Panic NilPointerDereference"
  by (simp add: getStacks_on_def getStacks_loop_line [OF assms(1)] loopBody_no_stack [OF assms(2)])

text \<open>
  C9. When the first line of the input does not begin with \<open>goroutine \<close>, no stack
  has been started when the line is written to \<open>curStack.fullStack\<close>: \<open>getStacks\<close>
  panics with a nil pointer dereference and returns nothing.
\<close>

theorem getStacks_first_line_not_header:
  assumes "getStackBuffer rt all = Some (Return (l @ newline # rest))"
    and "newline \<notin> set l" and "\<not> HasPrefix (l @ [newline]) ''goroutine ''"
  shows "getStacks rt all = Some (Panic NilPointerDereference)
         \<and> (\<forall>res. getStacks rt all \<noteq> Some (Return res))"
  using getStacks_capture [OF assms(1)] getStacks_on_first_line_not_header [OF assms(2,3)]
  by simp

theorem getStacks_first_line_not_header_witness:
  "getStackBuffer (fakeStack (''main.main()'' @ newline # ''goroutine 1 [running]:\<newline>'')) True
     = Some (Return (''main.main()'' @ newline # ''goroutine 1 [running]:\<newline>''))
   \<and> newline \<notin> set ''main.main()''
   \<and> \<not> HasPrefix (''main.main()'' @ [newline]) ''goroutine ''
   \<and> getStacks (fakeStack (''main.main()'' @ newline # ''goroutine 1 [running]:\<newline>'')) True
       = Some (Panic NilPointerDereference)"
proof -
  let ?d = "''main.main()'' @ newline # ''goroutine 1 [running]:\<newline>''"
  have 1: "getStackBuffer (fakeStack ?d) True = Some (Return ?d)"
    by (rule getStackBuffer_fakeStack_small) simp
  have 2: "newline \<notin> set ''main.main()''" by (simp add: newline_def)
  have 3: "\<not> HasPrefix (''main.main()'' @ [newline]) ''goroutine ''"
    by (simp add: HasPrefix_def)
  from getStacks_first_line_not_header [OF 1 2 3] 1 2 3 show ?thesis by blast
qed

lemma getStacks_loop_tail:
  assumes "newline \<notin> set t" "s = [] \<or> last s = newline"
  shows "getStacks_loop (s @ t) stacks curStack = getStacks_loop s stacks curStack"
  using assms(2)
proof (induction s arbitrary: stacks curStack rule: length_induct)
  case (1 s)
  show ?case
  proof (cases "s = []")
    case True
    then show ?thesis by (simp add: getStacks_loop_eof assms(1))
  next
    case False
    with 1(2) have "newline \<in> set s" by (metis last_in_set)
    from split_first_newline [OF this] obtain l rest
      where s: "s = l @ newline # rest" and l: "newline \<notin> set l" by blast
    have rest: "rest = [] \<or> last rest = newline"
      using 1(2) False s by (cases "rest = []") auto
    have len: "length rest < length s" using s by simp
    have ih: "getStacks_loop (rest @ t) st c = getStacks_loop rest st c" for st c
      using 1(1) len rest by blast
    have "getStacks_loop (s @ t) stacks curStack =
       (case loopBody (l @ [newline]) stacks curStack of
          Panic p \<Rightarrow> Panic p
        | Return (Ret r e) \<Rightarrow> Return (Ret r e)
        | Return (Go stacks1 curStack1) \<Rightarrow> getStacks_loop (rest @ t) stacks1 curStack1)"
      using getStacks_loop_line [OF l, of "rest @ t" stacks curStack] s by simp
    also have "\<dots> = getStacks_loop s stacks curStack"
      using getStacks_loop_line [OF l, of rest stacks curStack] s
      by (simp add: ih split: outcome.splits flow.splits)
    finally show ?thesis .
  qed
qed

lemma getStacks_on_tail:
  assumes "newline \<notin> set t" "s = [] \<or> last s = newline"
  shows "getStacks_on (s @ t) = getStacks_on s"
  by (simp add: getStacks_on_def getStacks_loop_tail [OF assms])

text \<open>
  C10. What follows the last line feed of the input plays no part: \<open>getStacks\<close>
  returns, or panics, as it does on the input without that text, so the text is in the
  full text of no stack, starts no stack and causes no failure.
\<close>

theorem getStacks_drops_unterminated_tail:
  assumes "getStackBuffer rt all = Some (Return (s @ t))"
    and "s = [] \<or> last s = newline" and "newline \<notin> set t"
    and "getStackBuffer rt' all = Some (Return s)"
  shows "getStacks rt all = getStacks rt' all"
  using getStacks_capture [OF assms(1)] getStacks_capture [OF assms(4)]
    getStacks_on_tail [OF assms(3,2)]
  by simp

theorem getStacks_drops_unterminated_tail_witness:
  "getStackBuffer (fakeStack (methodDump @ ''goroutine x'')) True
     = Some (Return (methodDump @ ''goroutine x''))
   \<and> (methodDump = [] \<or> last methodDump = newline)
   \<and> newline \<notin> set ''goroutine x''
   \<and> getStackBuffer (fakeStack methodDump) True = Some (Return methodDump)
   \<and> getStacks (fakeStack (methodDump @ ''goroutine x'')) True
       = Some (Return ([methodStack], None))"
proof -
  have 1: "getStackBuffer (fakeStack (methodDump @ ''goroutine x'')) True
     = Some (Return (methodDump @ ''goroutine x''))"
    by (rule getStackBuffer_fakeStack_small) (simp add: methodDump_def)
  have 2: "methodDump = [] \<or> last methodDump = newline"
    by (simp add: methodDump_def newline_def)
  have 3: "newline \<notin> set ''goroutine x''" by (simp add: newline_def)
  have 4: "getStackBuffer (fakeStack methodDump) True = Some (Return methodDump)"
    by (rule methodDump_capture)
  have 5: "getStacks (fakeStack methodDump) True = Some (Return ([methodStack], None))"
    using getStacks_capture [OF 4] methodDump_stacks by simp
  from getStacks_drops_unterminated_tail [OF 1 2 3 4] 1 2 3 4 5 show ?thesis by simp
qed

section \<open>The stack of the current goroutine\<close>

lemma loopBody_count:
  assumes "loopBody line st cu = Return (Go st' cu')"
  shows "length (flush st' cu') = length (flush st cu) + (if isHeader line then 1 else 0)"
  using assms
  by (auto simp: loopBody_def isHeader_def writeLine_def Let_def flush_def
      split: prod.splits option.splits if_splits outcome.splits)

lemma getStacks_loop_count:
  "getStacks_loop rd stacks curStack = Return (Go stacks1 curStack1) \<Longrightarrow>
   length (flush stacks1 curStack1)
     = length (flush stacks curStack) + length (filter isHeader (completeLines rd))"
proof (induction rd arbitrary: stacks curStack rule: lines_induct)
  case (eof rd)
  then show ?case by (simp add: getStacks_loop_eof completeLines_def linesFrom_tail)
next
  case (line line rd')
  from line.prems obtain st cu where
    b: "loopBody line stacks curStack = Return (Go st cu)"
    and r: "getStacks_loop rd' st cu = Return (Go stacks1 curStack1)"
    unfolding getStacks_loop_isLine [OF line.hyps]
    by (auto split: outcome.splits flow.splits)
  from line.IH [OF r] loopBody_count [OF b] show ?case
    by (simp add: completeLines_isLine [OF line.hyps])
qed

lemma getStacks_on_count:
  assumes "getStacks_on buf = Return (stacks, None)"
  shows "length stacks = length (filter isHeader (completeLines buf))"
proof (cases "getStacks_loop buf [] None")
  case (Panic p)
  with assms show ?thesis by (simp add: getStacks_on_def)
next
  case (Return f)
  show ?thesis
  proof (cases f)
    case (Ret r e)
    with Return getStacks_loop_Ret have "e \<noteq> None" by blast
    with Return Ret assms show ?thesis by (simp add: getStacks_on_def)
  next
    case (Go st cu)
    from getStacks_loop_count [OF Return [unfolded Go]]
    have "length (flush st cu) = length (filter isHeader (completeLines buf))"
      by (simp add: flush_def)
    with Return Go assms show ?thesis
      by (simp add: getStacks_on_def Let_def split: if_splits)
  qed
qed

lemma Current_success:
  assumes "Current rt = Some (Return (s, None))"
  obtains rest where "getStacks rt False = Some (Return (s # rest, None))"
  using assms
  by (auto simp: Current_def split: option.splits outcome.splits prod.splits list.splits)

text \<open>
  C8. \<open>getStacks\<close> returns as many stacks as the capture has header lines. For a
  capture of the current goroutine alone, which has one header line, a successful
  \<open>Current\<close> comes from a result of \<open>getStacks\<close> with exactly one stack, and returns
  that stack.
\<close>

theorem Current_single_record:
  assumes "getStackBuffer rt False = Some (Return buf)"
    and "length (filter isHeader (completeLines buf)) = 1"
    and "Current rt = Some (Return (s, None))"
  shows "getStacks rt False = Some (Return ([s], None))"
proof -
  from assms(3) obtain rest where g: "getStacks rt False = Some (Return (s # rest, None))"
    by (rule Current_success)
  with assms(1) have "getStacks_on buf = Return (s # rest, None)"
    by (simp add: getStacks_def)
  from getStacks_on_count [OF this] assms(2) have "rest = []" by simp
  with g show ?thesis by simp
qed

theorem Current_single_record_witness:
  "getStackBuffer (fakeStack methodDump) False = Some (Return methodDump)
   \<and> length (filter isHeader (completeLines methodDump)) = 1
   \<and> Current (fakeStack methodDump) = Some (Return (methodStack, None))
   \<and> getStacks (fakeStack methodDump) False = Some (Return ([methodStack], None))"
proof -
  have 1: "getStackBuffer (fakeStack methodDump) False = Some (Return methodDump)"
    by (rule methodDump_capture)
  have 2: "length (filter isHeader (completeLines methodDump)) = 1"
    by code_simp
  have g: "getStacks (fakeStack methodDump) False = Some (Return ([methodStack], None))"
    using getStacks_capture [OF 1] methodDump_stacks by simp
  have 3: "Current (fakeStack methodDump) = Some (Return (methodStack, None))"
    by (simp add: Current_def g)
  from Current_single_record [OF 1 2 3] 1 2 3 show ?thesis by simp
qed

section \<open>The test main\<close>

text \<open>
  C7. When the test run returns a non-zero exit code, \<open>verifyTestMain\<close> returns that
  code and leaves the process as the test run left it, whatever \<open>Find\<close> is: \<open>Find\<close> is
  not called, nothing is written to the error stream, and the mapping of its result to
  an exit code plays no part.
\<close>

theorem verifyTestMain_test_failure:
  "fst (m_Run p) \<noteq> 0 \<Longrightarrow> verifyTestMain m_Run Find options p = m_Run p"
  by (cases "m_Run p") (simp add: verifyTestMain_def)

theorem verifyTestMain_test_failure_witness:
  "fst (runStub 3 freshProcess) \<noteq> 0
   \<and> verifyTestMain (runStub 3) (findStub (Some errNoStacks)) [] freshProcess
       = (3, \<lparr>osStderr = [], findCalls = 0\<rparr>)"
  using verifyTestMain_test_failure
    [of "runStub 3" freshProcess "findStub (Some errNoStacks)" "[]"]
  by (simp add: runStub_def freshProcess_def)




end
